theory Spec2Isabelle
  imports Main
begin

section \<open>Strings of the host language\<close>

text \<open>
  A string of the program is a sequence of code units; the model keeps the code units
  below 256, one \<^typ>\<open>char\<close> each. All patterns the renderer searches for are ASCII.
\<close>

text \<open>\<^verbatim>\<open>s.startsWith(p)\<close>, the pattern first.\<close>

fun startsWith :: "string \<Rightarrow> string \<Rightarrow> bool" where
  "startsWith [] s = True"
| "startsWith (p # ps) [] = False"
| "startsWith (p # ps) (c # cs) = (p = c \<and> startsWith ps cs)"

text \<open>\<^verbatim>\<open>s.includes(p)\<close>, the pattern first.\<close>

fun includesStr :: "string \<Rightarrow> string \<Rightarrow> bool" where
  "includesStr p [] = (p = [])"
| "includesStr p (c # cs) = (startsWith p (c # cs) \<or> includesStr p cs)"

text \<open>
  White space and line terminators of the language, as \<^verbatim>\<open>trim\<close> and \<^verbatim>\<open>\s\<close> read them:
  TAB, LF, VT, FF, CR, SP and NBSP are the ones below 256.
\<close>

definition isWhiteSpace :: "char \<Rightarrow> bool" where
  "isWhiteSpace c \<longleftrightarrow> c \<in> {CHR 0x09, CHR 0x0A, CHR 0x0B, CHR 0x0C, CHR 0x0D, CHR 0x20, CHR 0xA0}"

definition trim :: "string \<Rightarrow> string" where
  "trim s = rev (dropWhile isWhiteSpace (rev (dropWhile isWhiteSpace s)))"

text \<open>\<^verbatim>\<open>s.split(d)\<close> for a separator of one character: always at least one piece.\<close>

fun split_on :: "char \<Rightarrow> string \<Rightarrow> string list" where
  "split_on d [] = [[]]"
| "split_on d (c # cs) =
     (if c = d then [] # split_on d cs
      else (c # hd (split_on d cs)) # tl (split_on d cs))"

text \<open>\<^verbatim>\<open>pieces.join(d)\<close>.\<close>

fun join :: "string \<Rightarrow> string list \<Rightarrow> string" where
  "join d [] = []"
| "join d [w] = w"
| "join d (w # v # ws) = w @ d @ join d (v # ws)"

text \<open>Decimal rendering of a non-negative integer, as a template literal prints it.\<close>

fun showNat :: "nat \<Rightarrow> string" where
  "showNat n =
     (if n < 10 then [char_of (48 + n)]
      else showNat (n div 10) @ [char_of (48 + n mod 10)])"

declare showNat.simps [simp del]

text \<open>A value that may be \<^verbatim>\<open>null\<close>: truthy when present and not the empty string.\<close>

definition truthy :: "string option \<Rightarrow> bool" where
  "truthy v \<longleftrightarrow> (case v of None \<Rightarrow> False | Some s \<Rightarrow> s \<noteq> [])"

section \<open>Renderer options and state\<close>

text \<open>
  A property of an options object is absent, present with the value \<^verbatim>\<open>undefined\<close>, or
  present with a value. Object spread copies every present property, also an undefined one.
\<close>

datatype 'a field = Absent | Undefined | Value 'a

datatype themeMode = Light | Dark

record IOpts =
  legend :: "string field"
  citeStatus :: "bool field"
  countStatus :: "bool field"
  isMacCodeBlock :: "bool field"
  isShowLineNumber :: "bool field"
  themeMode :: "themeMode field"

definition over :: "'a field \<Rightarrow> 'a field \<Rightarrow> 'a field" where
  "over old new = (case new of Absent \<Rightarrow> old | _ \<Rightarrow> new)"

text \<open>\<^verbatim>\<open>{ ...opts, ...newOpts }\<close>\<close>

definition spread :: "IOpts \<Rightarrow> IOpts \<Rightarrow> IOpts" where
  "spread old new =
     \<lparr> legend = over (legend old) (legend new),
       citeStatus = over (citeStatus old) (citeStatus new),
       countStatus = over (countStatus old) (countStatus new),
       isMacCodeBlock = over (isMacCodeBlock old) (isMacCodeBlock new),
       isShowLineNumber = over (isShowLineNumber old) (isShowLineNumber new),
       themeMode = over (themeMode old) (themeMode new) \<rparr>"

text \<open>
  The closure state of \<^verbatim>\<open>initRenderer\<close> that the footnote and link rules read and write:
  the options, the registry of \<^verbatim>\<open>[index, title, link]\<close> triples and the running index.
\<close>

record renderer =
  opts :: IOpts
  footnotes :: "(nat \<times> string \<times> string) list"
  footnoteIndex :: nat

definition initRenderer :: "IOpts \<Rightarrow> renderer" where
  "initRenderer os = \<lparr> opts = os, footnotes = [], footnoteIndex = 0 \<rparr>"

definition addFootnote :: "string \<Rightarrow> string \<Rightarrow> renderer \<Rightarrow> nat \<times> renderer" where
  "addFootnote title link r =
     (case find (\<lambda>(_, _, existingLink). existingLink = link) (footnotes r) of
        Some existingFootnote \<Rightarrow> (fst existingFootnote, r)
      | None \<Rightarrow>
          (let idx = footnoteIndex r + 1
           in (idx, r\<lparr> footnotes := footnotes r @ [(idx, title, link)], footnoteIndex := idx \<rparr>)))"

text \<open>
  \<^verbatim>\<open>setOptions\<close> also re-registers extensions with the Markdown engine; the engine is
  outside the model.
\<close>

definition setOptions :: "IOpts \<Rightarrow> renderer \<Rightarrow> renderer" where
  "setOptions newOpts r = r\<lparr> opts := spread (opts r) newOpts \<rparr>"

definition reset :: "IOpts \<Rightarrow> renderer \<Rightarrow> renderer" where
  "reset newOpts r = setOptions newOpts (r\<lparr> footnotes := [], footnoteIndex := 0 \<rparr>)"

text \<open>One render pass cites a sequence of \<open>(title, link)\<close> pairs, in document order.\<close>

definition citeAll :: "renderer \<Rightarrow> (string \<times> string) list \<Rightarrow> renderer" where
  "citeAll r regs = foldl (\<lambda>r (title, link). snd (addFootnote title link r)) r regs"

text \<open>The links of a sequence in the order of their first occurrence.\<close>

fun firstSeen :: "'a list \<Rightarrow> 'a list" where
  "firstSeen [] = []"
| "firstSeen (x # xs) = x # removeAll x (firstSeen xs)"

abbreviation linkOf :: "nat \<times> string \<times> string \<Rightarrow> string" where
  "linkOf e \<equiv> snd (snd e)"

text \<open>
  The options object that \<^verbatim>\<open>main\<close> passes to \<^verbatim>\<open>initRenderer\<close> when the command line
  sets nothing but the legend policy and the citation flag.
\<close>

definition mainOpts :: "string \<Rightarrow> bool \<Rightarrow> IOpts" where
  "mainOpts legendValue cite =
     \<lparr> legend = Value legendValue, citeStatus = Value cite, countStatus = Value False,
       isMacCodeBlock = Value True, isShowLineNumber = Value False, themeMode = Absent \<rparr>"

section \<open>Rendering rules\<close>

definition styledContent :: "string \<Rightarrow> string \<Rightarrow> string option \<Rightarrow> string" where
  \<open>styledContent styleLabel content tagName =
     (let tag = (case tagName of None \<Rightarrow> styleLabel | Some t \<Rightarrow> t);
          className = map (\<lambda>c. if c = CHR ''_'' then CHR ''-'' else c) styleLabel;
          headingAttr =
            (if (\<exists>d \<in> set ''0123456789''. tag = [CHR ''h'', d])
             then '' data-heading="true"'' else '''')
      in ''<'' @ tag @ '' class="'' @ className @ ''"'' @ headingAttr @ ''>''
         @ content @ ''</'' @ tag @ ''>'')\<close>

text \<open>
  The paragraph rule, on the text that the engine's inline parser returned for the
  paragraph's tokens.
\<close>

definition paragraphRule :: "string \<Rightarrow> string" where
  \<open>paragraphRule text =
     (let isFigureImage = (includesStr ''<figure'' text \<and> includesStr ''<img'' text);
          isEmpty = (trim text = '''')
      in if isFigureImage \<or> isEmpty then text else styledContent ''p'' text None)\<close>

fun transform_loop :: "string list \<Rightarrow> string option \<Rightarrow> string option \<Rightarrow> string" where
  "transform_loop [] text title = ''''"
| "transform_loop (option # options) text title =
     (if option = ''alt'' \<and> truthy text then the text
      else if option = ''title'' \<and> truthy title then the title
      else transform_loop options text title)"

definition transform :: "string \<Rightarrow> string option \<Rightarrow> string option \<Rightarrow> string" where
  "transform legendValue text title = transform_loop (split_on (CHR ''-'') legendValue) text title"

text \<open>The image rule: \<open>href\<close> and \<open>text\<close> are strings, \<open>title\<close> may be \<^verbatim>\<open>null\<close>.\<close>

definition image :: "renderer \<Rightarrow> string \<Rightarrow> string option \<Rightarrow> string \<Rightarrow> string" where
  \<open>image r href title text =
     (let newText =
            (case legend (opts r) of
               Value l \<Rightarrow> if l \<noteq> [] then transform l (Some text) title else ''''
             | _ \<Rightarrow> '''');
          subText = (if newText \<noteq> [] then styledContent ''figcaption'' newText None else '''');
          titleAttr = (if truthy title then '' title="'' @ the title @ ''"'' else '''')
      in ''<figure><img src="'' @ href @ ''"'' @ titleAttr @ '' alt="'' @ text @ ''"/>''
         @ subText @ ''</figure>'')\<close>

text \<open>\<^verbatim>\<open>/^https?:\/\/mp\.weixin\.qq\.com/.test(href)\<close>\<close>

definition isWeixin :: "string \<Rightarrow> bool" where
  "isWeixin href \<longleftrightarrow>
     startsWith ''http'' href \<and>
     (startsWith ''s://mp.weixin.qq.com'' (drop 4 href) \<or>
      startsWith ''://mp.weixin.qq.com'' (drop 4 href))"

text \<open>\<^verbatim>\<open>title || text\<close>\<close>

definition titleOr :: "string option \<Rightarrow> string \<Rightarrow> string" where
  "titleOr title text = (if truthy title then the title else text)"

definition anchor :: "string \<Rightarrow> string option \<Rightarrow> string \<Rightarrow> string \<Rightarrow> string" where
  \<open>anchor href title text inner =
     ''<a href="'' @ href @ ''" title="'' @ titleOr title text @ ''">'' @ inner @ ''</a>''\<close>

text \<open>
  The link rule, on the token's fields and the text \<open>parsedText\<close> that the engine's inline
  parser returned for the token's children; it returns the markup and the renderer state.
\<close>

definition link :: "renderer \<Rightarrow> string \<Rightarrow> string option \<Rightarrow> string \<Rightarrow> string \<Rightarrow> string \<times> renderer" where
  \<open>link r href title text parsedText =
     (if isWeixin href then (anchor href title text parsedText, r)
      else if href = text then (parsedText, r)
      else if citeStatus (opts r) = Value True then
        (let (ref, r') = addFootnote (titleOr title text) href r
         in (anchor href title text (parsedText @ ''<sup>['' @ showNat ref @ '']</sup>''), r'))
      else (anchor href title text parsedText, r))\<close>

section \<open>The CJK emphasis pass\<close>

text \<open>
  A node of the Markdown syntax tree: its type, its \<^verbatim>\<open>value\<close> when it is a literal, its
  \<^verbatim>\<open>children\<close> when it is a parent. The other fields of a node (a link's url and so
  on) are read by neither function below.
\<close>

datatype mdnode = Node (ntype: string) (nvalue: "string option") (nchildren: "mdnode list option")

fun extractText :: "mdnode \<Rightarrow> string" where
  "extractText (Node ty v cs) =
     (if ty = ''text'' then (case v of Some s \<Rightarrow> s | None \<Rightarrow> [])
      else (case cs of Some ns \<Rightarrow> concat (map extractText ns) | None \<Rightarrow> []))"

text \<open>
  \<^verbatim>\<open>visit\<close> walks the children first and then replaces the node itself in its parent's
  child list; the model returns the node that stands at this place afterwards. The flag
  says whether the node has a parent (the root has none). The text of the replacement is
  extracted from the node as the walk over its children has left it.
\<close>

fun visit :: "bool \<Rightarrow> mdnode \<Rightarrow> mdnode" where
  "visit hasParent (Node ty v cs) =
     (let node = Node ty v (map_option (map (visit True)) cs)
      in if ty = ''strong'' \<and> hasParent
         then Node ''html'' (Some (''<strong>'' @ extractText node @ ''</strong>'')) None
         else if ty = ''emphasis'' \<and> hasParent
         then Node ''html'' (Some (''<em>'' @ extractText node @ ''</em>'')) None
         else node)"

section \<open>The render pipeline\<close>

text \<open>
  The libraries the pipeline calls are parameters: the front-matter parser (\<open>None\<close> when
  it throws), the reading-time estimate, the Markdown parser and serializer of the CJK
  pass, and the Markdown engine. The decoding of numeric character references after the
  serializer yields code points beyond the model's characters and is a parameter as well.
\<close>

record ('y, 'r) engine =
  frontMatter :: "string \<Rightarrow> ('y \<times> string) option"
  emptyYaml :: 'y
  readingTimeOf :: "string \<Rightarrow> 'r"
  remarkParse :: "string \<Rightarrow> mdnode"
  remarkStringify :: "mdnode \<Rightarrow> string"
  decodeEntities :: "string \<Rightarrow> string"
  markedParse :: "string \<Rightarrow> string"

record ('y, 'r) ParseResult =
  yamlData :: 'y
  markdownContent :: string
  readingTime :: 'r

definition parseFrontMatterAndContent :: "('y, 'r) engine \<Rightarrow> string \<Rightarrow> ('y, 'r) ParseResult" where
  "parseFrontMatterAndContent E markdownText =
     (case frontMatter E markdownText of
        Some (attributes, body) \<Rightarrow>
          \<lparr> yamlData = attributes, markdownContent = body, readingTime = readingTimeOf E body \<rparr>
      | None \<Rightarrow>
          \<lparr> yamlData = emptyYaml E, markdownContent = markdownText,
            readingTime = readingTimeOf E markdownText \<rparr>)"

definition preprocessCjkEmphasis :: "('y, 'r) engine \<Rightarrow> string \<Rightarrow> string" where
  "preprocessCjkEmphasis E markdown =
     decodeEntities E (remarkStringify E (visit False (remarkParse E markdown)))"

text \<open>\<^verbatim>\<open>renderMarkdown\<close> of the Markdown-to-HTML script.\<close>

definition renderMarkdown :: "('y, 'r) engine \<Rightarrow> string \<Rightarrow> string \<times> 'r" where
  "renderMarkdown E raw =
     (let preprocessed = preprocessCjkEmphasis E raw;
          res = parseFrontMatterAndContent E preprocessed;
          html = markedParse E (markdownContent res)
      in (html, readingTime res))"

text \<open>\<^verbatim>\<open>renderMarkdown\<close> of the renderer module of the WeChat posting skill.\<close>

definition renderMarkdown_wechat :: "('y, 'r) engine \<Rightarrow> string \<Rightarrow> string \<times> 'r" where
  "renderMarkdown_wechat E raw =
     (let res = parseFrontMatterAndContent E raw;
          preprocessed = preprocessCjkEmphasis E (markdownContent res);
          html = markedParse E preprocessed
      in (html, readingTime res))"

section \<open>Regular expressions of the post-processing steps\<close>

text \<open>
  Under the flag \<^verbatim>\<open>i\<close> a character matches an ASCII character of the pattern when both
  are the same letter in either case, and no character beyond ASCII matches one.
\<close>

definition lowerChar :: "char \<Rightarrow> char" where
  "lowerChar c = (let n = of_char c :: nat in if 65 \<le> n \<and> n \<le> 90 then char_of (n + 32) else c)"

text \<open>The subject begins with the ASCII pattern, case-insensitively.\<close>

fun startsWithCI :: "string \<Rightarrow> string \<Rightarrow> bool" where
  "startsWithCI [] s = True"
| "startsWithCI (p # ps) [] = False"
| "startsWithCI (p # ps) (c # cs) = (lowerChar c = lowerChar p \<and> startsWithCI ps cs)"

text \<open>
  \<^verbatim>\<open>([^>]*)>\<close>: the greedy group takes everything before the first \<^verbatim>\<open>>\<close>, and no shorter
  group can be followed by \<^verbatim>\<open>>\<close>; without a \<^verbatim>\<open>>\<close> there is no match.
\<close>

definition splitAttrs :: "string \<Rightarrow> (string \<times> string) option" where
  "splitAttrs s =
     (case dropWhile (\<lambda>c. c \<noteq> CHR ''>'') s of
        [] \<Rightarrow> None
      | _ # rest \<Rightarrow> Some (takeWhile (\<lambda>c. c \<noteq> CHR ''>'') s, rest))"

text \<open>
  \<^verbatim>\<open>[\s\S]*?\<close> before a literal: the lazy group is the shortest text after which the
  literal follows. The result is the group and the rest, which begins with the literal.
\<close>

fun lazyUntil :: "string \<Rightarrow> string \<Rightarrow> (string \<times> string) option" where
  "lazyUntil p [] = (if startsWithCI p [] then Some ([], []) else None)"
| "lazyUntil p (c # cs) =
     (if startsWithCI p (c # cs) then Some ([], c # cs)
      else map_option (\<lambda>(skipped, rest). (c # skipped, rest)) (lazyUntil p cs))"

section \<open>HTML structure repair\<close>

text \<open>
  The pattern is
  \<^verbatim>\<open>/<li([^>]*)>([\s\S]*?)(<ul[\s\S]*?<\/ul>|<ol[\s\S]*?<\/ol>)<\/li>/i\<close>.
  One alternative of group 3 at the start of \<open>s\<close>, followed by \<^verbatim>\<open></li>\<close>: the group as
  written in the subject, and what follows the \<^verbatim>\<open></li>\<close>.
\<close>

definition subListAlt :: "string \<Rightarrow> string \<Rightarrow> string \<Rightarrow> (string \<times> string) option" where
  "subListAlt openTag closeTag s =
     (if startsWithCI openTag s
      then map_option (\<lambda>(inner, rest). (take 3 s @ inner @ take 5 rest, drop 10 rest))
             (lazyUntil closeTag (drop 3 s))
      else None)"

definition subListAt :: "string \<Rightarrow> (string \<times> string) option" where
  "subListAt s =
     (case subListAlt ''<ul'' ''</ul></li>'' s of
        Some m \<Rightarrow> Some m
      | None \<Rightarrow> subListAlt ''<ol'' ''</ol></li>'' s)"

text \<open>Group 2 is lazy: the shortest body after which group 3 and \<^verbatim>\<open></li>\<close> match.\<close>

fun bodyThenSub :: "string \<Rightarrow> (string \<times> string \<times> string) option" where
  "bodyThenSub [] = map_option (\<lambda>(sub, post). ([], sub, post)) (subListAt [])"
| "bodyThenSub (c # cs) =
     (case subListAt (c # cs) of
        Some (sub, post) \<Rightarrow> Some ([], sub, post)
      | None \<Rightarrow> map_option (\<lambda>(body, sub, post). (c # body, sub, post)) (bodyThenSub cs))"

text \<open>A match of the whole pattern at the start of \<open>s\<close>: groups 1, 2, 3 and the rest.\<close>

definition matchAt :: "string \<Rightarrow> (string \<times> string \<times> string \<times> string) option" where
  "matchAt s =
     (if startsWithCI ''<li'' s then
        (case splitAttrs (drop 3 s) of
           None \<Rightarrow> None
         | Some (attrs, rest) \<Rightarrow>
             map_option (\<lambda>(body, sub, post). (attrs, body, sub, post)) (bodyThenSub rest))
      else None)"

text \<open>
  \<^verbatim>\<open>output.replace(pattern, "<li$1>$2</li>$3")\<close> at the leftmost match; \<open>None\<close> when
  \<^verbatim>\<open>pattern.test(output)\<close> is false.
\<close>

fun replaceFirst :: "string \<Rightarrow> string option" where
  "replaceFirst [] = None"
| "replaceFirst (c # cs) =
     (case matchAt (c # cs) of
        Some (attrs, body, sub, post) \<Rightarrow>
          Some (''<li'' @ attrs @ ''>'' @ body @ ''</li>'' @ sub @ post)
      | None \<Rightarrow> map_option ((#) c) (replaceFirst cs))"

text \<open>The loop; \<open>None\<close> stands for a loop that does not return.\<close>

partial_function (option) modifyHtmlStructure :: "string \<Rightarrow> string option" where
  "modifyHtmlStructure output =
     (case replaceFirst output of
        None \<Rightarrow> Some output
      | Some output' \<Rightarrow> modifyHtmlStructure output')"

declare modifyHtmlStructure.simps [code]

text \<open>
  The string read as a number in base 256, most significant character first, letters in
  lower case.
\<close>

definition weight :: "string \<Rightarrow> nat" where
  "weight s = foldl (\<lambda>a c. 256 * a + of_char (lowerChar c)) 0 s"

section \<open>CSS normalization\<close>


































section \<open>The footnote registry\<close>

lemma set_firstSeen: "set (firstSeen xs) = set xs"
  by (induction xs) auto

lemma distinct_firstSeen: "distinct (firstSeen xs)"
  by (induction xs) (auto simp: distinct_removeAll)

lemma firstSeen_snoc:
  "firstSeen (xs @ [x]) = (if x \<in> set xs then firstSeen xs else firstSeen xs @ [x])"
  by (induction xs) (auto simp: set_firstSeen)

lemma find_link_None:
  "find (\<lambda>(_, _, existingLink). existingLink = l) fs = None \<longleftrightarrow> l \<notin> set (map linkOf fs)"
  by (induction fs) auto

lemma find_link_Some:
  "find (\<lambda>(_, _, existingLink). existingLink = l) fs = Some e \<Longrightarrow> e \<in> set fs \<and> linkOf e = l"
  by (induction fs) (auto split: if_splits)

lemma addFootnote_present:
  "l \<in> set (map linkOf (footnotes r)) \<Longrightarrow>
   snd (addFootnote t l r) = r \<and>
   (\<exists>t0. (fst (addFootnote t l r), t0, l) \<in> set (footnotes r))"
proof -
  assume a: "l \<in> set (map linkOf (footnotes r))"
  then obtain e where e: "find (\<lambda>(_, _, existingLink). existingLink = l) (footnotes r) = Some e"
    using find_link_None [of l "footnotes r"] by (cases "find (\<lambda>(_, _, existingLink). existingLink = l) (footnotes r)") auto
  from find_link_Some [OF e] have "e \<in> set (footnotes r)" "linkOf e = l" by auto
  then have "(fst e, fst (snd e), l) \<in> set (footnotes r)" by (cases e) auto
  with e show ?thesis by (auto simp: addFootnote_def)
qed

lemma addFootnote_new:
  "l \<notin> set (map linkOf (footnotes r)) \<Longrightarrow>
   addFootnote t l r =
     (footnoteIndex r + 1,
      r\<lparr> footnotes := footnotes r @ [(footnoteIndex r + 1, t, l)],
         footnoteIndex := footnoteIndex r + 1 \<rparr>)"
  using find_link_None [of l "footnotes r"] by (simp add: addFootnote_def Let_def)

lemma citeAll_snoc:
  "citeAll r (regs @ [(t, l)]) = snd (addFootnote t l (citeAll r regs))"
  by (simp add: citeAll_def)

lemma citeAll_invariant:
  "footnoteIndex (citeAll (initRenderer os) regs) = length (footnotes (citeAll (initRenderer os) regs)) \<and>
   map fst (footnotes (citeAll (initRenderer os) regs)) = [1..<Suc (length (footnotes (citeAll (initRenderer os) regs)))] \<and>
   map linkOf (footnotes (citeAll (initRenderer os) regs)) = firstSeen (map snd regs) \<and>
   opts (citeAll (initRenderer os) regs) = os"
proof (induction regs rule: rev_induct)
  case Nil
  show ?case by (simp add: citeAll_def initRenderer_def)
next
  case (snoc x regs)
  obtain t l where x: "x = (t, l)" by (cases x)
  let ?r = "citeAll (initRenderer os) regs"
  show ?case
  proof (cases "l \<in> set (map linkOf (footnotes ?r))")
    case True
    then have "snd (addFootnote t l ?r) = ?r" using addFootnote_present by blast
    moreover from True snoc have "l \<in> set (map snd regs)" by (metis set_firstSeen)
    ultimately show ?thesis using snoc by (simp add: x citeAll_snoc firstSeen_snoc)
  next
    case False
    moreover from False snoc have "l \<notin> set (map snd regs)" by (metis set_firstSeen)
    ultimately show ?thesis using snoc
      by (simp add: x citeAll_snoc firstSeen_snoc addFootnote_new)
  qed
qed

text \<open>
  C1. After any sequence of registrations in one render pass, starting from a fresh
  renderer: the registry's links are pairwise distinct; its indices are 1, 2, ..., n in
  this order, and the running index is n; its links are the cited links in first-seen
  order. Registering a link that is present returns the index stored with it and leaves
  the state as it is; registering a new link appends one entry whose index is the new
  length n + 1.
\<close>

theorem addFootnote_registry:
  "(let r = citeAll (initRenderer os) regs; n = length (footnotes r) in
     distinct (map linkOf (footnotes r)) \<and>
     map fst (footnotes r) = [1..<Suc n] \<and>
     footnoteIndex r = n \<and>
     map linkOf (footnotes r) = firstSeen (map snd regs) \<and>
     (if l \<in> set (map linkOf (footnotes r))
      then snd (addFootnote t l r) = r \<and>
           (\<exists>t0. (fst (addFootnote t l r), t0, l) \<in> set (footnotes r))
      else addFootnote t l r =
           (Suc n, r\<lparr> footnotes := footnotes r @ [(Suc n, t, l)], footnoteIndex := Suc n \<rparr>)))"
proof -
  let ?r = "citeAll (initRenderer os) regs"
  note inv = citeAll_invariant [of os regs]
  have d: "distinct (map linkOf (footnotes ?r))" using inv by (simp add: distinct_firstSeen)
  have i: "map fst (footnotes ?r) = [1..<Suc (length (footnotes ?r))]" using inv by blast
  have n: "footnoteIndex ?r = length (footnotes ?r)" using inv by blast
  have f: "map linkOf (footnotes ?r) = firstSeen (map snd regs)" using inv by blast
  have a: "if l \<in> set (map linkOf (footnotes ?r))
      then snd (addFootnote t l ?r) = ?r \<and>
           (\<exists>t0. (fst (addFootnote t l ?r), t0, l) \<in> set (footnotes ?r))
      else addFootnote t l ?r =
           (Suc (length (footnotes ?r)),
            ?r\<lparr> footnotes := footnotes ?r @ [(Suc (length (footnotes ?r)), t, l)],
                 footnoteIndex := Suc (length (footnotes ?r)) \<rparr>)"
  proof (cases "l \<in> set (map linkOf (footnotes ?r))")
    case True
    then show ?thesis using addFootnote_present [OF True, of t] by presburger
  next
    case False
    then show ?thesis using addFootnote_new [OF False, of t] n by simp
  qed
  show ?thesis unfolding Let_def using d i n f a by blast
qed

theorem addFootnote_registry_witness:
  "(let r = citeAll (initRenderer \<lparr> legend = Value ''alt'', citeStatus = Value True,
                countStatus = Absent, isMacCodeBlock = Absent, isShowLineNumber = Absent,
                themeMode = Absent \<rparr>)
              [(''A'', ''u1''), (''B'', ''u2''), (''C'', ''u1'')]
    in footnotes r = [(1, ''A'', ''u1''), (2, ''B'', ''u2'')] \<and>
       fst (addFootnote ''D'' ''u2'' r) = 2 \<and>
       snd (addFootnote ''D'' ''u2'' r) = r \<and>
       fst (addFootnote ''E'' ''u3'' r) = 3 \<and>
       footnotes (snd (addFootnote ''E'' ''u3'' r)) =
         [(1, ''A'', ''u1''), (2, ''B'', ''u2''), (3, ''E'', ''u3'')])"
  using addFootnote_registry
    [of "\<lparr> legend = Value ''alt'', citeStatus = Value True,
          countStatus = Absent, isMacCodeBlock = Absent, isShowLineNumber = Absent,
          themeMode = Absent \<rparr>"
        "[(''A'', ''u1''), (''B'', ''u2''), (''C'', ''u1'')]" "''u2''" "''D''"]
  by (simp add: citeAll_def initRenderer_def addFootnote_def)

text \<open>
  C9. \<^verbatim>\<open>reset\<close> empties the registry and sets the running index to 0. Each of the six
  options of the result is the supplied one when the supplied options have the key, also
  with the value \<^verbatim>\<open>undefined\<close>, and the current one otherwise. The renderer is then in the
  state of a fresh one with these options, and the next newly cited link gets index 1.
\<close>

theorem reset_clears:
  "footnotes (reset newOpts r) = [] \<and>
   footnoteIndex (reset newOpts r) = 0 \<and>
   legend (opts (reset newOpts r)) =
     (if legend newOpts = Absent then legend (opts r) else legend newOpts) \<and>
   citeStatus (opts (reset newOpts r)) =
     (if citeStatus newOpts = Absent then citeStatus (opts r) else citeStatus newOpts) \<and>
   countStatus (opts (reset newOpts r)) =
     (if countStatus newOpts = Absent then countStatus (opts r) else countStatus newOpts) \<and>
   isMacCodeBlock (opts (reset newOpts r)) =
     (if isMacCodeBlock newOpts = Absent then isMacCodeBlock (opts r) else isMacCodeBlock newOpts) \<and>
   isShowLineNumber (opts (reset newOpts r)) =
     (if isShowLineNumber newOpts = Absent then isShowLineNumber (opts r)
      else isShowLineNumber newOpts) \<and>
   themeMode (opts (reset newOpts r)) =
     (if themeMode newOpts = Absent then themeMode (opts r) else themeMode newOpts) \<and>
   reset newOpts r = initRenderer (opts (reset newOpts r)) \<and>
   addFootnote t l (reset newOpts r) =
     (1, \<lparr> opts = opts (reset newOpts r), footnotes = [(1, t, l)], footnoteIndex = 1 \<rparr>)"
  by (cases r)
    (simp add: reset_def setOptions_def initRenderer_def addFootnote_def spread_def over_def
      split: field.splits)

theorem reset_clears_witness:
  "(let r = citeAll (initRenderer (mainOpts ''alt'' True)) [(''A'', ''u1''), (''B'', ''u2'')];
        r' = reset \<lparr> legend = Value ''none'', citeStatus = Absent, countStatus = Value True,
                      isMacCodeBlock = Undefined, isShowLineNumber = Absent,
                      themeMode = Value Dark \<rparr> r
    in footnotes r = [(1, ''A'', ''u1''), (2, ''B'', ''u2'')] \<and>
       r' = \<lparr> opts = \<lparr> legend = Value ''none'', citeStatus = Value True,
                         countStatus = Value True, isMacCodeBlock = Undefined,
                         isShowLineNumber = Value False, themeMode = Value Dark \<rparr>,
               footnotes = [], footnoteIndex = 0 \<rparr> \<and>
       fst (addFootnote ''B'' ''u2'' r') = 1)"
  using reset_clears
    [of "\<lparr> legend = Value ''none'', citeStatus = Absent, countStatus = Value True,
           isMacCodeBlock = Undefined, isShowLineNumber = Absent, themeMode = Value Dark \<rparr>"
        "citeAll (initRenderer (mainOpts ''alt'' True)) [(''A'', ''u1''), (''B'', ''u2'')]"
        "''B''" "''u2''"]
  by (simp add: citeAll_def initRenderer_def mainOpts_def addFootnote_def reset_def
      setOptions_def spread_def over_def)

section \<open>Paragraphs, links and image legends\<close>

lemma startsWith_iff: "startsWith p s \<longleftrightarrow> (\<exists>t. s = p @ t)"
  by (induction p s rule: startsWith.induct) auto

lemma includesStr_iff: "includesStr p s \<longleftrightarrow> (\<exists>a b. s = a @ p @ b)"
proof (induction s)
  case Nil
  show ?case by auto
next
  case (Cons c cs)
  show ?case
  proof
    assume "includesStr p (c # cs)"
    then consider "startsWith p (c # cs)" | "includesStr p cs" by auto
    then show "\<exists>a b. c # cs = a @ p @ b"
    proof cases
      case 1
      then obtain t where "c # cs = p @ t" using startsWith_iff by blast
      then have "c # cs = [] @ p @ t" by simp
      then show ?thesis by blast
    next
      case 2
      then obtain a b where "cs = a @ p @ b" using Cons.IH by blast
      then have "c # cs = (c # a) @ p @ b" by simp
      then show ?thesis by blast
    qed
  next
    assume "\<exists>a b. c # cs = a @ p @ b"
    then obtain a b where ab: "c # cs = a @ p @ b" by blast
    show "includesStr p (c # cs)"
    proof (cases a)
      case Nil
      with ab have "startsWith p (c # cs)" using startsWith_iff by auto
      then show ?thesis by simp
    next
      case (Cons x a')
      with ab have "cs = a' @ p @ b" by simp
      then have "includesStr p cs" using Cons.IH by blast
      then show ?thesis by simp
    qed
  qed
qed

lemma dropWhile_all: "dropWhile P xs = [] \<longleftrightarrow> (\<forall>x \<in> set xs. P x)"
  by (induction xs) auto

lemma trim_empty_iff: "trim s = [] \<longleftrightarrow> (\<forall>c \<in> set s. isWhiteSpace c)"
proof -
  have "trim s = [] \<longleftrightarrow> (\<forall>c \<in> set (dropWhile isWhiteSpace s). isWhiteSpace c)"
    by (simp add: trim_def dropWhile_all)
  also have "\<dots> \<longleftrightarrow> dropWhile isWhiteSpace s = []"
    by (metis dropWhile_all dropWhile_idem)
  finally show ?thesis by (simp add: dropWhile_all)
qed

text \<open>
  C4, as the code has it. The paragraph rule returns the parsed inline text unwrapped when
  the text contains both \<^verbatim>\<open><figure\<close> and \<^verbatim>\<open><img\<close> somewhere, or consists of white space
  only; every other text is wrapped in \<^verbatim>\<open><p class="p">\<close>. Text around an image does not
  bring the wrapper back.
\<close>

theorem paragraph_wraps:
  \<open>paragraphRule text =
     (if ((\<exists>a b. text = a @ ''<figure'' @ b) \<and> (\<exists>a b. text = a @ ''<img'' @ b))
         \<or> (\<forall>c \<in> set text. isWhiteSpace c)
      then text
      else ''<p class="p">'' @ text @ ''</p>'')\<close>
  by (simp add: paragraphRule_def includesStr_iff trim_empty_iff styledContent_def)

theorem paragraph_wraps_witness:
  \<open>paragraphRule ''Hello <em>you</em>'' = ''<p class="p">Hello <em>you</em></p>'' \<and>
   paragraphRule ''  '' = ''  ''\<close>
  using paragraph_wraps [of "''Hello <em>you</em>''"] paragraph_wraps [of "''  ''"]
  by (simp add: paragraphRule_def styledContent_def trim_def isWhiteSpace_def)

text \<open>
  C4 as stated fails: a paragraph of the words \<^verbatim>\<open>see \<close> followed by an image is neither
  empty nor solely a figure, and the rule returns it without the \<^verbatim>\<open><p>\<close> wrapper.
\<close>

theorem paragraph_mixed_counterexample:
  \<open>''see '' @ image (initRenderer (mainOpts ''alt'' False)) ''a.png'' None ''x''
     = ''see <figure><img src="a.png" alt="x"/><figcaption class="figcaption">x</figcaption></figure>'' \<and>
   paragraphRule (''see '' @ image (initRenderer (mainOpts ''alt'' False)) ''a.png'' None ''x'')
     = ''see <figure><img src="a.png" alt="x"/><figcaption class="figcaption">x</figcaption></figure>'' \<and>
   paragraphRule (''see '' @ image (initRenderer (mainOpts ''alt'' False)) ''a.png'' None ''x'')
     \<noteq> styledContent ''p''
         (''see '' @ image (initRenderer (mainOpts ''alt'' False)) ''a.png'' None ''x'') None\<close>
  by (simp add: paragraphRule_def image_def initRenderer_def mainOpts_def transform_def
      truthy_def styledContent_def)

lemma startsWith_append:
  "startsWith (p @ q) s \<longleftrightarrow> startsWith p s \<and> startsWith q (drop (length p) s)"
  by (induction p s rule: startsWith.induct) auto

lemma isWeixin_iff:
  "isWeixin href \<longleftrightarrow>
     (\<exists>t. href = ''http://mp.weixin.qq.com'' @ t) \<or> (\<exists>t. href = ''https://mp.weixin.qq.com'' @ t)"
proof -
  have l: "length ''http'' = 4" by simp
  note a = startsWith_append [of "''http''" "''://mp.weixin.qq.com''" href, unfolded l]
  note b = startsWith_append [of "''http''" "''s://mp.weixin.qq.com''" href, unfolded l]
  have "isWeixin href \<longleftrightarrow>
     startsWith (''http'' @ ''://mp.weixin.qq.com'') href \<or>
     startsWith (''http'' @ ''s://mp.weixin.qq.com'') href"
    unfolding isWeixin_def using a b by blast
  then show ?thesis unfolding startsWith_iff by simp
qed

text \<open>
  C5, as the code has it. For a link token whose text equals its href, the rule returns the
  parsed inline text, with no anchor and the renderer state as it was, whatever the
  citation flag, unless the href begins with \<^verbatim>\<open>http://mp.weixin.qq.com\<close> or
  \<^verbatim>\<open>https://mp.weixin.qq.com\<close>: such a link is returned as an anchor.
\<close>

theorem link_same_text:
  \<open>href = text \<Longrightarrow>
   link r href title text parsedText =
     (if (\<exists>t. href = ''http://mp.weixin.qq.com'' @ t) \<or> (\<exists>t. href = ''https://mp.weixin.qq.com'' @ t)
      then (''<a href="'' @ href @ ''" title="'' @ (if truthy title then the title else text)
             @ ''">'' @ parsedText @ ''</a>'', r)
      else (parsedText, r))\<close>
  by (simp add: link_def isWeixin_iff anchor_def titleOr_def)

theorem link_same_text_witness:
  \<open>link (initRenderer (mainOpts ''alt'' True)) ''https://example.com'' None
      ''https://example.com'' ''https://example.com''
     = (''https://example.com'', initRenderer (mainOpts ''alt'' True)) \<and>
   link (initRenderer (mainOpts ''alt'' False)) ''https://example.com'' None
      ''https://example.com'' ''https://example.com''
     = (''https://example.com'', initRenderer (mainOpts ''alt'' False))\<close>
  using link_same_text [of "''https://example.com''" "''https://example.com''"
      "initRenderer (mainOpts ''alt'' True)" None "''https://example.com''"]
    link_same_text [of "''https://example.com''" "''https://example.com''"
      "initRenderer (mainOpts ''alt'' False)" None "''https://example.com''"]
  by (simp add: link_def isWeixin_def)

text \<open>
  C5 as stated fails for a link to the publishing platform: its text equals its href and
  the rule returns an anchor.
\<close>

theorem link_weixin_counterexample:
  \<open>fst (link (initRenderer (mainOpts ''alt'' True)) ''https://mp.weixin.qq.com/s/abc'' None
        ''https://mp.weixin.qq.com/s/abc'' ''https://mp.weixin.qq.com/s/abc'')
     = ''<a href="https://mp.weixin.qq.com/s/abc" title="https://mp.weixin.qq.com/s/abc">https://mp.weixin.qq.com/s/abc</a>''\<close>
  by (simp add: link_def isWeixin_def anchor_def titleOr_def truthy_def)

lemma split_on_nonempty: "split_on d s \<noteq> []"
  by (induction s) auto

lemma join_Cons: "ws \<noteq> [] \<Longrightarrow> join d (w # ws) = w @ d @ join d ws"
  by (cases ws) auto

lemma join_split_on: "join [d] (split_on d s) = s"
proof (induction s)
  case Nil
  show ?case by simp
next
  case (Cons c cs)
  obtain w ws where w: "split_on d cs = w # ws" using split_on_nonempty [of d cs] by (cases "split_on d cs") auto
  show ?case
  proof (cases "c = d")
    case True
    then show ?thesis using Cons by (simp add: join_Cons split_on_nonempty)
  next
    case False
    then show ?thesis using Cons w by (cases ws) auto
  qed
qed

lemma split_on_no_sep: "w \<in> set (split_on d s) \<Longrightarrow> d \<notin> set w"
proof (induction s arbitrary: w)
  case Nil
  then show ?case by simp
next
  case (Cons c cs)
  obtain v vs where v: "split_on d cs = v # vs" using split_on_nonempty [of d cs] by (cases "split_on d cs") auto
  then have "d \<notin> set v" "\<And>u. u \<in> set vs \<Longrightarrow> d \<notin> set u" using Cons.IH by auto
  then show ?case using Cons.prems v by (auto split: if_splits)
qed

lemma transform_loop_find:
  "transform_loop options text title =
     (case find (\<lambda>option. option = ''alt'' \<and> truthy text \<or> option = ''title'' \<and> truthy title) options of
        None \<Rightarrow> ''''
      | Some option \<Rightarrow> if option = ''alt'' then the text else the title)"
  by (induction options) auto

text \<open>
  C7. \<^verbatim>\<open>transform\<close> splits the policy at every \<^verbatim>\<open>-\<close> (the tokens joined by \<^verbatim>\<open>-\<close> give
  the policy back and hold no \<^verbatim>\<open>-\<close>), and returns the value of the first token, in this
  order, that is \<^verbatim>\<open>alt\<close> with a non-empty alt text or \<^verbatim>\<open>title\<close> with a non-empty title; the
  empty string when there is none. So \<^verbatim>\<open>title-alt\<close> returns a non-empty title whatever the
  alt text is, \<^verbatim>\<open>alt\<close> returns the alt text or nothing, whatever the title is, and
  \<^verbatim>\<open>none\<close> returns the empty string; under \<^verbatim>\<open>none\<close> the image rule emits the figure with
  the \<^verbatim>\<open>img\<close> element alone, no \<^verbatim>\<open>figcaption\<close> element after it.
\<close>

theorem transform_policy:
  \<open>join ''-'' (split_on (CHR ''-'') legendValue) = legendValue \<and>
   (\<forall>option \<in> set (split_on (CHR ''-'') legendValue). CHR ''-'' \<notin> set option) \<and>
   transform legendValue text title =
     (case find (\<lambda>option. option = ''alt'' \<and> truthy text \<or> option = ''title'' \<and> truthy title)
             (split_on (CHR ''-'') legendValue) of
        None \<Rightarrow> ''''
      | Some option \<Rightarrow> if option = ''alt'' then the text else the title) \<and>
   (ti \<noteq> '''' \<longrightarrow> transform ''title-alt'' text (Some ti) = ti) \<and>
   transform ''alt'' text title = (if truthy text then the text else '''') \<and>
   transform ''none'' text title = '''' \<and>
   (legend (opts r) = Value ''none'' \<longrightarrow>
      image r href title alt =
        ''<figure><img src="'' @ href @ ''"''
          @ (if truthy title then '' title="'' @ the title @ ''"'' else '''')
          @ '' alt="'' @ alt @ ''"/></figure>'')\<close>
proof -
  have a: "join ''-'' (split_on (CHR ''-'') legendValue) = legendValue" by (rule join_split_on)
  have b: "\<forall>option \<in> set (split_on (CHR ''-'') legendValue). CHR ''-'' \<notin> set option"
    using split_on_no_sep by blast
  have c: "transform legendValue text title =
     (case find (\<lambda>option. option = ''alt'' \<and> truthy text \<or> option = ''title'' \<and> truthy title)
             (split_on (CHR ''-'') legendValue) of
        None \<Rightarrow> ''''
      | Some option \<Rightarrow> if option = ''alt'' then the text else the title)"
    unfolding transform_def by (rule transform_loop_find)
  have d: "ti \<noteq> '''' \<longrightarrow> transform ''title-alt'' text (Some ti) = ti"
    by (simp add: transform_def truthy_def)
  have e: "transform ''alt'' text title = (if truthy text then the text else '''')"
    by (simp add: transform_def)
  have f: "transform ''none'' text title = ''''"
    by (simp add: transform_def)
  have g: \<open>legend (opts r) = Value ''none'' \<longrightarrow>
      image r href title alt =
        ''<figure><img src="'' @ href @ ''"''
          @ (if truthy title then '' title="'' @ the title @ ''"'' else '''')
          @ '' alt="'' @ alt @ ''"/></figure>''\<close>
    by (simp add: image_def transform_def Let_def)
  show ?thesis using a b c d e f g by blast
qed

theorem transform_policy_witness:
  \<open>split_on (CHR ''-'') ''title-alt'' = [''title'', ''alt''] \<and>
   transform ''title-alt'' (Some ''a cat'') (Some ''Tom'') = ''Tom'' \<and>
   transform ''alt'' (Some ''a cat'') (Some ''Tom'') = ''a cat'' \<and>
   image (initRenderer (mainOpts ''none'' False)) ''a.png'' (Some ''Tom'') ''a cat''
     = ''<figure><img src="a.png" title="Tom" alt="a cat"/></figure>''\<close>
  using transform_policy [of "''title-alt''" "Some ''a cat''" "Some ''Tom''" "''Tom''"
      "initRenderer (mainOpts ''none'' False)" "''a.png''" "''a cat''"]
  by (simp add: transform_def truthy_def initRenderer_def mainOpts_def)

section \<open>The CJK emphasis pass and the order of the pipeline\<close>

text \<open>
  C2 at the tree of \<^verbatim>\<open>**a *b* c**\<close>: the emphasis inside the strong node is replaced first,
  by an html node, which \<^verbatim>\<open>extractText\<close> reads as empty; the strong node becomes
  \<^verbatim>\<open><strong>a  c</strong>\<close> and the text \<^verbatim>\<open>b\<close> is gone, although the text content of the
  strong node was \<^verbatim>\<open>a b c\<close>.
\<close>

theorem visit_drops_nested_emphasis:
  "extractText (Node ''strong'' None (Some [Node ''text'' (Some ''a '') None,
       Node ''emphasis'' None (Some [Node ''text'' (Some ''b'') None]),
       Node ''text'' (Some '' c'') None])) = ''a b c'' \<and>
   visit False (Node ''root'' None (Some [Node ''paragraph'' None (Some
     [Node ''strong'' None (Some [Node ''text'' (Some ''a '') None,
        Node ''emphasis'' None (Some [Node ''text'' (Some ''b'') None]),
        Node ''text'' (Some '' c'') None])])]))
   = Node ''root'' None (Some [Node ''paragraph'' None (Some
       [Node ''html'' (Some ''<strong>a  c</strong>'') None])])"
  by simp

text \<open>
  C6 on the Markdown-to-HTML script: its \<^verbatim>\<open>renderMarkdown\<close> hands the raw text, metadata
  block included, to the CJK pass and splits the front matter off the result; the reading
  time is that of the body of the rewritten text. The renderer module of the WeChat
  posting skill splits first and rewrites the body.
\<close>

theorem renderMarkdown_order:
  "renderMarkdown E raw =
     (markedParse E (markdownContent (parseFrontMatterAndContent E (preprocessCjkEmphasis E raw))),
      readingTime (parseFrontMatterAndContent E (preprocessCjkEmphasis E raw))) \<and>
   renderMarkdown_wechat E raw =
     (markedParse E (preprocessCjkEmphasis E (markdownContent (parseFrontMatterAndContent E raw))),
      readingTime (parseFrontMatterAndContent E raw))"
  by (simp add: renderMarkdown_def renderMarkdown_wechat_def Let_def)

section \<open>Termination and idempotence of the structure repair\<close>

lemma startsWithCI_decomp:
  "startsWithCI p s \<Longrightarrow> length p \<le> length s \<and> map lowerChar (take (length p) s) = map lowerChar p"
  by (induction p s rule: startsWithCI.induct) auto

lemma splitAttrs_decomp: "splitAttrs s = Some (attrs, rest) \<Longrightarrow> s = attrs @ CHR ''>'' # rest"
  unfolding splitAttrs_def by (auto split: list.splits simp: dropWhile_eq_Cons_conv)

lemma lazyUntil_decomp: "lazyUntil p s = Some (a, b) \<Longrightarrow> s = a @ b \<and> startsWithCI p b"
  by (induction s arbitrary: a) (auto split: if_splits)

lemma subListAlt_shape:
  assumes "subListAlt openTag closeTag s = Some (sub, post)"
    and "length openTag = 3" and "length closeTag = 10"
  shows "\<exists>c5. s = sub @ c5 @ post \<and> map lowerChar c5 = drop 5 (map lowerChar closeTag) \<and>
           take 3 (map lowerChar sub) = map lowerChar openTag"
proof -
  from assms(1) obtain inner rest where
    o: "startsWithCI openTag s" and l: "lazyUntil closeTag (drop 3 s) = Some (inner, rest)"
    and sub: "sub = take 3 s @ inner @ take 5 rest" and post: "post = drop 10 rest"
    unfolding subListAlt_def by (auto split: if_splits)
  from startsWithCI_decomp [OF o] assms(2)
  have o3: "3 \<le> length s" "map lowerChar (take 3 s) = map lowerChar openTag" by auto
  from lazyUntil_decomp [OF l] have d: "drop 3 s = inner @ rest" and c: "startsWithCI closeTag rest" by auto
  from startsWithCI_decomp [OF c] assms(3)
  have c10: "10 \<le> length rest" "map lowerChar (take 10 rest) = map lowerChar closeTag" by auto
  let ?c5 = "take 5 (drop 5 rest)"
  have "drop 10 rest = drop 5 (drop 5 rest)" by simp
  then have "?c5 @ drop 10 rest = drop 5 rest" by (simp only: append_take_drop_id)
  then have "take 5 rest @ ?c5 @ post = rest" using post by (simp only: append_take_drop_id)
  then have "sub @ ?c5 @ post = take 3 s @ drop 3 s" using sub d by simp
  then have s: "s = sub @ ?c5 @ post" by simp
  have "map lowerChar ?c5 = take 5 (drop 5 (map lowerChar (take 10 rest)))"
    by (simp add: take_map drop_map drop_take)
  then have c5: "map lowerChar ?c5 = drop 5 (map lowerChar closeTag)"
    using c10 assms(3) by simp
  have "take 3 (map lowerChar sub) = map lowerChar (take 3 s)" using sub o3 assms(2) by (simp add: take_map)
  then have t: "take 3 (map lowerChar sub) = map lowerChar openTag" using o3(2) by (rule trans)
  show ?thesis using s c5 t by (intro exI [of _ ?c5] conjI)
qed

lemma take3_shape:
  assumes "take 3 xs = [a, b, c]"
  shows "xs = a # b # c # drop 3 xs"
proof -
  have "take 3 xs @ drop 3 xs = xs" by (rule append_take_drop_id)
  with assms show ?thesis by simp
qed

lemma subListAt_shape:
  assumes "subListAt s = Some (sub, post)"
  shows "\<exists>x t c5. s = sub @ c5 @ post \<and> map lowerChar sub = CHR ''<'' # x # t \<and>
           (x = CHR ''u'' \<or> x = CHR ''o'') \<and> map lowerChar c5 = ''</li>''"
proof -
  from assms consider "subListAlt ''<ul'' ''</ul></li>'' s = Some (sub, post)"
    | "subListAlt ''<ol'' ''</ol></li>'' s = Some (sub, post)"
    unfolding subListAt_def by (auto split: option.splits)
  then show ?thesis
  proof cases
    case 1
    have "\<exists>c5. s = sub @ c5 @ post \<and> map lowerChar c5 = drop 5 (map lowerChar ''</ul></li>'') \<and>
           take 3 (map lowerChar sub) = map lowerChar ''<ul''"
      by (rule subListAlt_shape [OF 1]) simp_all
    then obtain c5 where c: "s = sub @ c5 @ post"
      "map lowerChar c5 = drop 5 (map lowerChar ''</ul></li>'')"
      "take 3 (map lowerChar sub) = map lowerChar ''<ul''" by (elim exE conjE)
    have c5: "map lowerChar c5 = ''</li>''" using c(2) by (simp add: lowerChar_def)
    have "take 3 (map lowerChar sub) = [CHR ''<'', CHR ''u'', CHR ''l'']"
      using c(3) by (simp add: lowerChar_def)
    then have "map lowerChar sub = CHR ''<'' # CHR ''u'' # CHR ''l'' # drop 3 (map lowerChar sub)"
      by (rule take3_shape)
    then show ?thesis using c(1) c5
      by (intro exI [of _ "CHR ''u''"] exI [of _ "CHR ''l'' # drop 3 (map lowerChar sub)"] exI [of _ c5]) simp
  next
    case 2
    have "\<exists>c5. s = sub @ c5 @ post \<and> map lowerChar c5 = drop 5 (map lowerChar ''</ol></li>'') \<and>
           take 3 (map lowerChar sub) = map lowerChar ''<ol''"
      by (rule subListAlt_shape [OF 2]) simp_all
    then obtain c5 where c: "s = sub @ c5 @ post"
      "map lowerChar c5 = drop 5 (map lowerChar ''</ol></li>'')"
      "take 3 (map lowerChar sub) = map lowerChar ''<ol''" by (elim exE conjE)
    have c5: "map lowerChar c5 = ''</li>''" using c(2) by (simp add: lowerChar_def)
    have "take 3 (map lowerChar sub) = [CHR ''<'', CHR ''o'', CHR ''l'']"
      using c(3) by (simp add: lowerChar_def)
    then have "map lowerChar sub = CHR ''<'' # CHR ''o'' # CHR ''l'' # drop 3 (map lowerChar sub)"
      by (rule take3_shape)
    then show ?thesis using c(1) c5
      by (intro exI [of _ "CHR ''o''"] exI [of _ "CHR ''l'' # drop 3 (map lowerChar sub)"] exI [of _ c5]) simp
  qed
qed

lemma bodyThenSub_shape:
  "bodyThenSub s = Some (body, sub, post) \<Longrightarrow>
   \<exists>x t c5. s = body @ sub @ c5 @ post \<and> map lowerChar sub = CHR ''<'' # x # t \<and>
           (x = CHR ''u'' \<or> x = CHR ''o'') \<and> map lowerChar c5 = ''</li>''"
proof (induction s arbitrary: body)
  case Nil
  then have "subListAt [] = Some (sub, post)" "body = []" by auto
  with subListAt_shape [of "[]" sub post] show ?case by simp
next
  case (Cons c cs)
  show ?case
  proof (cases "subListAt (c # cs)")
    case None
    with Cons.prems obtain body' where b: "bodyThenSub cs = Some (body', sub, post)" "body = c # body'"
      by auto
    from Cons.IH [OF b(1)] obtain x t c5 where
      "cs = body' @ sub @ c5 @ post" "map lowerChar sub = CHR ''<'' # x # t"
      "x = CHR ''u'' \<or> x = CHR ''o''" "map lowerChar c5 = ''</li>''" by (elim exE conjE)
    then show ?thesis using b(2) by (intro exI [of _ x] exI [of _ t] exI [of _ c5]) simp
  next
    case (Some m)
    with Cons.prems have "subListAt (c # cs) = Some (sub, post)" "body = []" by (auto split: prod.splits)
    with subListAt_shape [of "c # cs" sub post] show ?thesis by simp
  qed
qed


lemma matchAt_lex:
  assumes "matchAt s = Some (attrs, body, sub, post)"
  shows "\<exists>u x v w.
           map lowerChar (''<li'' @ attrs @ ''>'' @ body @ ''</li>'' @ sub @ post) = u @ CHR ''/'' # v \<and>
           map lowerChar s = u @ x # w \<and> (x = CHR ''u'' \<or> x = CHR ''o'') \<and>
           length v = length w"
proof -
  from assms obtain rest where
    o: "startsWithCI ''<li'' s" and a: "splitAttrs (drop 3 s) = Some (attrs, rest)"
    and b: "bodyThenSub rest = Some (body, sub, post)"
    unfolding matchAt_def by (auto split: if_splits option.splits)
  have n: "length ''<li'' = 3" by simp
  from startsWithCI_decomp [OF o, unfolded n] have l3: "map lowerChar (take 3 s) = ''<li''"
    by (simp add: lowerChar_def)
  have "take 3 s @ drop 3 s = s" by (rule append_take_drop_id)
  with splitAttrs_decomp [OF a] have s: "s = take 3 s @ attrs @ ''>'' @ rest" by simp
  from bodyThenSub_shape [OF b] obtain x t c5 where c:
    "rest = body @ sub @ c5 @ post" "map lowerChar sub = CHR ''<'' # x # t"
    "x = CHR ''u'' \<or> x = CHR ''o''" "map lowerChar c5 = ''</li>''" by (elim exE conjE)
  let ?u = "''<li'' @ map lowerChar attrs @ ''>'' @ map lowerChar body @ ''<''"
  let ?v = "''li>'' @ map lowerChar sub @ map lowerChar post"
  let ?w = "t @ ''</li>'' @ map lowerChar post"
  have "map lowerChar s = map lowerChar (take 3 s) @ map lowerChar attrs @ map lowerChar ''>''
      @ map lowerChar body @ map lowerChar sub @ map lowerChar c5 @ map lowerChar post"
    by (subst s, subst c(1)) (simp only: map_append)
  then have 1: "map lowerChar s = ?u @ x # ?w"
    unfolding l3 c(2) c(4) by (simp add: lowerChar_def)
  have 2: "map lowerChar (''<li'' @ attrs @ ''>'' @ body @ ''</li>'' @ sub @ post) = ?u @ CHR ''/'' # ?v"
    by (simp add: lowerChar_def)
  have "length (map lowerChar sub) = Suc (Suc (length t))" unfolding c(2) by simp
  then have 3: "length ?v = length ?w" by simp
  show ?thesis using 2 1 c(3) 3 by (intro exI [of _ ?u] exI [of _ x] exI [of _ ?v] exI [of _ ?w] conjI)
qed

lemma replaceFirst_lex:
  "replaceFirst s = Some s' \<Longrightarrow>
   \<exists>u x v w. map lowerChar s' = u @ CHR ''/'' # v \<and> map lowerChar s = u @ x # w \<and>
             (x = CHR ''u'' \<or> x = CHR ''o'') \<and> length v = length w"
proof (induction s arbitrary: s')
  case Nil
  then show ?case by simp
next
  case (Cons c cs)
  show ?case
  proof (cases "matchAt (c # cs)")
    case None
    with Cons.prems obtain r where r: "replaceFirst cs = Some r" "s' = c # r" by auto
    from Cons.IH [OF r(1)] obtain u x v w where
      "map lowerChar r = u @ CHR ''/'' # v" "map lowerChar cs = u @ x # w"
      "x = CHR ''u'' \<or> x = CHR ''o''" "length v = length w" by (elim exE conjE)
    then show ?thesis using r(2)
      by (intro exI [of _ "lowerChar c # u"] exI [of _ x] exI [of _ v] exI [of _ w]) simp
  next
    case (Some m)
    obtain attrs body sub post where m: "m = (attrs, body, sub, post)" by (cases m) auto
    with Some Cons.prems have s': "s' = ''<li'' @ attrs @ ''>'' @ body @ ''</li>'' @ sub @ post" by simp
    from Some m have "matchAt (c # cs) = Some (attrs, body, sub, post)" by simp
    from matchAt_lex [OF this] show ?thesis unfolding s' .
  qed
qed

lemma num_acc:
  "foldl (\<lambda>a c. 256 * a + of_char c) a cs = a * 256 ^ length cs + foldl (\<lambda>a c. 256 * a + of_char c) (0::nat) cs"
proof (induction cs arbitrary: a)
  case Nil
  show ?case by simp
next
  case (Cons c cs)
  let ?f = "\<lambda>a c. 256 * a + (of_char c :: nat)"
  have e2: "foldl ?f 0 (c # cs) = of_char c * 256 ^ length cs + foldl ?f 0 cs"
    using Cons.IH [of "of_char c"] by simp
  have e1: "foldl ?f a (c # cs) = (256 * a + of_char c) * 256 ^ length cs + foldl ?f 0 cs"
    using Cons.IH [of "256 * a + of_char c"] by simp
  show ?case unfolding e1 e2 by (simp add: algebra_simps)
qed

lemma of_char_bound: "of_char c < (256::nat)"
proof -
  have "of_char c mod 256 = (of_char c :: nat)" by (rule of_char_mod_256)
  moreover have "of_char c mod 256 < (256::nat)" by simp
  ultimately show ?thesis by simp
qed

lemma num_bound: "foldl (\<lambda>a c. 256 * a + of_char c) (0::nat) cs < 256 ^ length cs"
proof (induction cs)
  case Nil
  show ?case by simp
next
  case (Cons c cs)
  have "foldl (\<lambda>a c. 256 * a + of_char c) (0::nat) (c # cs)
      = of_char c * 256 ^ length cs + foldl (\<lambda>a c. 256 * a + of_char c) (0::nat) cs"
    using num_acc [of "of_char c" cs] by simp
  also have "\<dots> < of_char c * 256 ^ length cs + 256 ^ length cs" using Cons.IH by simp
  also have "\<dots> = (of_char c + 1) * 256 ^ length cs" by (simp add: algebra_simps)
  also have "\<dots> \<le> 256 * 256 ^ length cs"
  proof -
    have "of_char c + 1 \<le> (256::nat)" using of_char_bound [of c] by linarith
    then show ?thesis by (rule mult_le_mono1)
  qed
  finally show ?case by simp
qed

lemma weight_map: "weight s = foldl (\<lambda>a c. 256 * a + of_char c) 0 (map lowerChar s)"
  unfolding weight_def by (simp add: foldl_map)

lemma weight_lex:
  assumes "map lowerChar s' = u @ a # v" and "map lowerChar s = u @ b # w"
    and "of_char a < (of_char b :: nat)" and "length v = length w"
  shows "weight s' < weight s"
proof -
  let ?f = "\<lambda>a c. 256 * a + (of_char c :: nat)"
  let ?U = "foldl ?f 0 u"
  have l: "weight s' = (256 * ?U + of_char a) * 256 ^ length v + foldl ?f 0 v"
    unfolding weight_map assms(1) using num_acc [of "256 * ?U + of_char a" v] by simp
  have r: "weight s = (256 * ?U + of_char b) * 256 ^ length w + foldl ?f 0 w"
    unfolding weight_map assms(2) using num_acc [of "256 * ?U + of_char b" w] by simp
  have "weight s' < (256 * ?U + of_char a) * 256 ^ length v + 256 ^ length v"
    unfolding l using num_bound [of v] by simp
  also have "\<dots> = (256 * ?U + of_char a + 1) * 256 ^ length w"
    using assms(4) by (simp add: algebra_simps)
  also have "\<dots> \<le> (256 * ?U + of_char b) * 256 ^ length w"
  proof -
    have "256 * ?U + of_char a + 1 \<le> 256 * ?U + of_char b" using assms(3) by linarith
    then show ?thesis by (rule mult_le_mono1)
  qed
  also have "\<dots> \<le> weight s" unfolding r by simp
  finally show ?thesis .
qed

lemma replaceFirst_weight: "replaceFirst s = Some s' \<Longrightarrow> weight s' < weight s"
proof -
  assume "replaceFirst s = Some s'"
  from replaceFirst_lex [OF this] obtain u x v w where
    1: "map lowerChar s' = u @ CHR ''/'' # v" and 2: "map lowerChar s = u @ x # w"
    and x: "x = CHR ''u'' \<or> x = CHR ''o''" and l: "length v = length w" by (elim exE conjE)
  from x have "of_char (CHR ''/'') < (of_char x :: nat)" by auto
  from weight_lex [OF 1 2 this l] show ?thesis .
qed

lemma replaceFirst_length: "replaceFirst s = Some s' \<Longrightarrow> length s' = length s"
proof -
  assume "replaceFirst s = Some s'"
  from replaceFirst_lex [OF this] obtain u x v w where
    1: "map lowerChar s' = u @ CHR ''/'' # v" and 2: "map lowerChar s = u @ x # w"
    and l: "length v = length w" by (elim exE conjE)
  have "length (map lowerChar s') = length (map lowerChar s)" unfolding 1 2 using l by simp
  then show ?thesis by simp
qed

lemma modifyHtmlStructure_total: "\<exists>y. modifyHtmlStructure s = Some y \<and> replaceFirst y = None"
proof (induction "weight s" arbitrary: s rule: less_induct)
  case less
  show ?case
  proof (cases "replaceFirst s")
    case None
    then have "modifyHtmlStructure s = Some s" by (subst modifyHtmlStructure.simps) simp
    with None show ?thesis by simp
  next
    case (Some s')
    then have "modifyHtmlStructure s = modifyHtmlStructure s'" by (subst modifyHtmlStructure.simps) simp
    moreover from less [OF replaceFirst_weight [OF Some]]
    have "\<exists>y. modifyHtmlStructure s' = Some y \<and> replaceFirst y = None" .
    ultimately show ?thesis by simp
  qed
qed

lemma modifyHtmlStructure_fixed:
  assumes "modifyHtmlStructure s = Some y"
  shows "replaceFirst y = None"
  by (rule modifyHtmlStructure.raw_induct [where P = "\<lambda>s y. replaceFirst y = None", OF _ assms])
    (auto split: option.splits)

text \<open>
  C8. The repair pass is idempotent: on every input on which the loop returns, running it
  again on the result returns the same result.
\<close>

theorem modifyHtmlStructure_idempotent:
  "modifyHtmlStructure s = Some y \<Longrightarrow> modifyHtmlStructure y = Some y"
proof -
  assume "modifyHtmlStructure s = Some y"
  then have "replaceFirst y = None" by (rule modifyHtmlStructure_fixed)
  then show ?thesis by (subst modifyHtmlStructure.simps) simp
qed

theorem modifyHtmlStructure_idempotent_witness:
  "modifyHtmlStructure ''<li>a<ul><li>b</li></ul></li>'' = Some ''<li>a</li><ul><li>b</li></ul>'' \<and>
   modifyHtmlStructure ''<li>a</li><ul><li>b</li></ul>'' = Some ''<li>a</li><ul><li>b</li></ul>''"
proof -
  have 1: "modifyHtmlStructure ''<li>a<ul><li>b</li></ul></li>'' = Some ''<li>a</li><ul><li>b</li></ul>''"
    by code_simp
  from 1 modifyHtmlStructure_idempotent [OF 1] show ?thesis by (rule conjI)
qed

text \<open>
  C10. The loop returns on every input, with a result the pattern no longer matches:
  each rewrite keeps the length of the string and strictly decreases its weight, the
  string read as a base-256 number with letters in lower case (the closing tag
  \<^verbatim>\<open></li>\<close> takes the place of the sub-list's \<^verbatim>\<open><ul\<close> or \<^verbatim>\<open><ol\<close>, and \<^verbatim>\<open>/\<close> is below
  \<^verbatim>\<open>u\<close> and \<^verbatim>\<open>o\<close>).
\<close>

theorem modifyHtmlStructure_terminates:
  "(\<exists>y. modifyHtmlStructure s = Some y \<and> replaceFirst y = None) \<and>
   (\<forall>s'. replaceFirst s = Some s' \<longrightarrow> length s' = length s \<and> weight s' < weight s)"
  using modifyHtmlStructure_total replaceFirst_weight replaceFirst_length by blast

theorem modifyHtmlStructure_terminates_witness:
  "replaceFirst ''<li>a<ul><li>b</li></ul></li>'' = Some ''<li>a</li><ul><li>b</li></ul>'' \<and>
   length ''<li>a</li><ul><li>b</li></ul>'' = length ''<li>a<ul><li>b</li></ul></li>'' \<and>
   weight ''<li>a</li><ul><li>b</li></ul>'' < weight ''<li>a<ul><li>b</li></ul></li>''"
proof -
  have 1: "replaceFirst ''<li>a<ul><li>b</li></ul></li>'' = Some ''<li>a</li><ul><li>b</li></ul>''"
    by code_simp
  from modifyHtmlStructure_terminates [of "''<li>a<ul><li>b</li></ul></li>''"] 1
  show ?thesis by blast
qed

section \<open>CSS normalization rewrites the fixed references\<close>










subsection \<open>The replacements, one reference after the other\<close>

















subsection \<open>The removals keep a text free of custom-property references\<close>











subsection \<open>One pass over a document\<close>






















subsection \<open>The three passes\<close>








end
